theory Spec2Isabelle
  imports Main
begin

section \<open>Python strings\<close>

text \<open>
  A Python \<^verbatim>\<open>str\<close> is a sequence of Unicode code points; a code point is modelled by its
  number. The literals of the source are written through \<open>u\<close>.
\<close>

type_synonym ustr = "nat list"

abbreviation (input) u :: "string \<Rightarrow> ustr" where
  "u s \<equiv> map of_char s"

text \<open>\<^verbatim>\<open>str.isspace\<close> of one character; the class \<^verbatim>\<open>\s\<close> of a \<^verbatim>\<open>str\<close> pattern is the same set.\<close>

definition isspace :: "nat \<Rightarrow> bool" where
  "isspace c \<longleftrightarrow> c \<in> set [9, 10, 11, 12, 13, 28, 29, 30, 31, 32, 133, 160, 5760,
     8192, 8193, 8194, 8195, 8196, 8197, 8198, 8199, 8200, 8201, 8202,
     8232, 8233, 8239, 8287, 12288]"

text \<open>The line boundaries of \<^verbatim>\<open>str.splitlines\<close>.\<close>

definition linebreak :: "nat \<Rightarrow> bool" where
  "linebreak c \<longleftrightarrow> c \<in> set [10, 11, 12, 13, 28, 29, 30, 133, 8232, 8233]"

text \<open>
  \<^verbatim>\<open>str.splitlines()\<close>: the text is cut at every line boundary, \<^verbatim>\<open>\r\n\<close> counting as one;
  the boundaries are dropped, and a text that ends in a boundary has no empty last line.
  \<open>splitlines_from cur s\<close> holds in \<open>cur\<close> the characters of the line being read.
\<close>

fun splitlines_from :: "ustr \<Rightarrow> ustr \<Rightarrow> ustr list" where
  "splitlines_from cur [] = (if cur = [] then [] else [cur])"
| "splitlines_from cur (c # cs) =
     (if c = 13 \<and> (case cs of [] \<Rightarrow> False | d # _ \<Rightarrow> d = 10) then splitlines_from cur cs
      else if linebreak c then cur # splitlines_from [] cs
      else splitlines_from (cur @ [c]) cs)"

definition splitlines :: "ustr \<Rightarrow> ustr list" where
  "splitlines s = splitlines_from [] s"

text \<open>\<^verbatim>\<open>str.strip()\<close>: leading and trailing whitespace removed.\<close>

definition strip :: "ustr \<Rightarrow> ustr" where
  "strip s = rev (dropWhile isspace (rev (dropWhile isspace s)))"


section \<open>The credential pattern\<close>

text \<open>
  The pattern of the source is
  \<^verbatim>\<open>(password|passwd|pwd|secret|token|key)\s*[:=]\s*['\"]?([^\s'\"&;]+)['\"]?\<close>,
  searched with \<^verbatim>\<open>re.IGNORECASE\<close>. Its syntax tree needs literals, character sets,
  sequence, alternation, the greedy repetition of one character, and numbered groups.
\<close>

datatype item = Chr nat | Category_space

fun item_ok :: "item \<Rightarrow> nat \<Rightarrow> bool" where
  "item_ok (Chr p) c = (c = p)"
| "item_ok Category_space c = isspace c"

datatype atom = Literal nat | In "item list" | Not_in "item list"

text \<open>
  A literal letter of the pattern against a character of the text under
  \<^verbatim>\<open>re.IGNORECASE\<close>: the letter itself, its upper case, and for \<^verbatim>\<open>s\<close> and \<^verbatim>\<open>k\<close> the two
  characters Unicode folds to them (U+017F, the long s, and U+212A, the Kelvin sign).
  The sets of this pattern hold no cased character: the flag does not change them.
\<close>

definition ignorecase_eq :: "nat \<Rightarrow> nat \<Rightarrow> bool" where
  "ignorecase_eq p c \<longleftrightarrow>
     c = p \<or> (97 \<le> p \<and> p \<le> 122 \<and> c + 32 = p) \<or> (p = 115 \<and> c = 383) \<or> (p = 107 \<and> c = 8490)"

fun atom_ok :: "atom \<Rightarrow> nat \<Rightarrow> bool" where
  "atom_ok (Literal p) c = ignorecase_eq p c"
| "atom_ok (In its) c = list_ex (\<lambda>i. item_ok i c) its"
| "atom_ok (Not_in its) c = (\<not> list_ex (\<lambda>i. item_ok i c) its)"

datatype re = Eps | Atom atom | Seq re re | Alt re re | Star atom | Group nat re

text \<open>\<^verbatim>\<open>x?\<close> and \<^verbatim>\<open>x+\<close> are greedy: the longer match is tried first.\<close>

definition Opt :: "atom \<Rightarrow> re" where
  "Opt a = Alt (Atom a) Eps"

definition Plus :: "atom \<Rightarrow> re" where
  "Plus a = Seq (Atom a) (Star a)"

definition word :: "string \<Rightarrow> re" where
  "word w = foldr (\<lambda>c r. Seq (Atom (Literal (of_char c))) r) w Eps"

definition PASSWORD_REGEX :: re where
  "PASSWORD_REGEX =
     Seq (Group 1 (Alt (word ''password'') (Alt (word ''passwd'') (Alt (word ''pwd'')
            (Alt (word ''secret'') (Alt (word ''token'') (word ''key'')))))))
    (Seq (Star (In [Category_space]))
    (Seq (Atom (In [Chr 58, Chr 61]))
    (Seq (Star (In [Category_space]))
    (Seq (Opt (In [Chr 39, Chr 34]))
    (Seq (Group 2 (Plus (Not_in [Category_space, Chr 39, Chr 34, Chr 38, Chr 59])))
         (Opt (In [Chr 39, Chr 34])))))))"

text \<open>
  The groups of a match: the text each numbered group matched last.
\<close>

type_synonym groups = "nat \<rightharpoonup> ustr"

text \<open>
  The backtracking matcher of \<^verbatim>\<open>re\<close>: \<open>sre_match r s g k\<close> matches \<open>r\<close> at the start of \<open>s\<close>
  and hands the rest of the text to the continuation \<open>k\<close>; when \<open>k\<close> fails, the next
  choice of \<open>r\<close> is tried: the alternatives of \<^verbatim>\<open>|\<close> from left to right, a repetition from
  the longest run down to the empty one.
\<close>

fun sre_match :: "re \<Rightarrow> ustr \<Rightarrow> groups \<Rightarrow> (ustr \<Rightarrow> groups \<Rightarrow> groups option) \<Rightarrow> groups option" where
  "sre_match Eps s g k = k s g"
| "sre_match (Atom a) [] g k = None"
| "sre_match (Atom a) (c # cs) g k = (if atom_ok a c then k cs g else None)"
| "sre_match (Seq r1 r2) s g k = sre_match r1 s g (\<lambda>s' g'. sre_match r2 s' g' k)"
| "sre_match (Alt r1 r2) s g k =
     (case sre_match r1 s g k of Some m \<Rightarrow> Some m | None \<Rightarrow> sre_match r2 s g k)"
| "sre_match (Star a) [] g k = k [] g"
| "sre_match (Star a) (c # cs) g k =
     (if atom_ok a c
      then (case sre_match (Star a) cs g k of Some m \<Rightarrow> Some m | None \<Rightarrow> k (c # cs) g)
      else k (c # cs) g)"
| "sre_match (Group n r) s g k =
     sre_match r s g (\<lambda>s' g'. k s' (g'(n \<mapsto> take (length s - length s') s)))"

text \<open>
  \<^verbatim>\<open>re.search\<close>: the match at the leftmost position of the text that has one.
\<close>

fun re_search :: "re \<Rightarrow> ustr \<Rightarrow> groups option" where
  "re_search r [] = sre_match r [] Map.empty (\<lambda>s' g'. Some g')"
| "re_search r (c # cs) =
     (case sre_match r (c # cs) Map.empty (\<lambda>s' g'. Some g') of
        Some m \<Rightarrow> Some m
      | None \<Rightarrow> re_search r cs)"

section \<open>The matcher\<close>

text \<open>
  \<^verbatim>\<open>check_file_for_passwords\<close>: every line of the text is searched once; a line with a match
  gives one tuple, of group 2, the line number counted from 1, and the stripped line.
  The path is an argument the body never reads. Group 2 is part of every match of the
  pattern (lemma \<open>group2_set\<close> below), so \<^verbatim>\<open>match.group(2)\<close> is never \<^verbatim>\<open>None\<close>.
\<close>

fun matches_of :: "nat \<Rightarrow> ustr list \<Rightarrow> (ustr \<times> nat \<times> ustr) list" where
  "matches_of i [] = []"
| "matches_of i (line # lines) =
     (case re_search PASSWORD_REGEX line of
        None \<Rightarrow> matches_of (i + 1) lines
      | Some m \<Rightarrow>
          (case m 2 of
             None \<Rightarrow> matches_of (i + 1) lines
           | Some password \<Rightarrow> (password, i + 1, strip line) # matches_of (i + 1) lines))"

definition check_file_for_passwords :: "ustr \<Rightarrow> ustr \<Rightarrow> (ustr \<times> nat \<times> ustr) list" where
  "check_file_for_passwords file_content file_path = matches_of 0 (splitlines file_content)"


text \<open>
  A finding is a match with the path of its file in front, as the walk stores it:
  \<^verbatim>\<open>results.append((content.path, password, line_number, full_line))\<close> for every match.
\<close>

type_synonym finding = "ustr \<times> ustr \<times> nat \<times> ustr"

definition findings_of :: "ustr \<Rightarrow> (ustr \<times> nat \<times> ustr) list \<Rightarrow> finding list" where
  "findings_of file_path matches =
     map (\<lambda>(password, line_number, full_line). (file_path, password, line_number, full_line)) matches"

section \<open>The content provider\<close>

text \<open>
  What the walk reads comes from the hosting service. An exception is modelled by its
  message. A content entry has the type the service names (\<^verbatim>\<open>content.type\<close>), its path, and
  what \<^verbatim>\<open>content.decoded_content.decode("utf-8", errors="ignore")\<close> gives: the exception
  reading the content raises, or the text. A repository handle lists a path
  (\<^verbatim>\<open>repo.get_contents\<close>) and resolves a submodule path
  (\<^verbatim>\<open>repo.get_submodule(path).module()\<close>): each raises or returns; a submodule resolves to
  nothing or to another repository. Repositories are named by numbers, so that one can
  refer to another freely, also back to itself.
\<close>

datatype exn = Exception ustr

fun str :: "exn \<Rightarrow> ustr" where
  "str (Exception msg) = msg"

record content =
  ctype :: ustr
  path :: ustr
  decoded :: "exn + ustr"

record repository =
  get_contents :: "ustr \<Rightarrow> exn + content list"
  get_submodule :: "ustr \<Rightarrow> exn + nat option"

type_synonym provider = "nat \<Rightarrow> repository"

text \<open>
  What a run does besides computing: the calls to the service and the lines printed, in
  the order they happen.
\<close>

datatype event =
    Call_get_repo ustr ustr
  | Call_get_contents nat ustr
  | Call_get_submodule nat ustr
  | Call_decoded_content ustr
  | Print ustr
  | Save ustr

record state =
  processed_files :: "ustr set"
  log :: "event list"

definition logged :: "event list \<Rightarrow> state \<Rightarrow> state" where
  "logged es st = st\<lparr>log := log st @ es\<rparr>"

section \<open>The walk\<close>

text \<open>
  \<^verbatim>\<open>process_repository\<close> and its \<^verbatim>\<open>while contents:\<close> loop, here \<open>walk\<close>, with the pending
  entries, the results so far and the state. The set of processed files is one object
  shared by the nested calls: the state is threaded through them, and an exception
  leaves it as it was when raised. The first argument bounds the number of loop
  iterations and nested calls; \<open>None\<close> says the bound was reached before the call returned.
\<close>

fun process_repository :: "nat \<Rightarrow> provider \<Rightarrow> nat \<Rightarrow> state \<Rightarrow> ((exn + finding list) \<times> state) option"
  and walk :: "nat \<Rightarrow> provider \<Rightarrow> nat \<Rightarrow> content list \<Rightarrow> finding list \<Rightarrow> state
                 \<Rightarrow> ((exn + finding list) \<times> state) option" where
  "process_repository 0 P repo st = None"
| "process_repository (Suc n) P repo st =
     (case get_contents (P repo) [] of
        Inl e \<Rightarrow> Some (Inl e, logged [Call_get_contents repo []] st)
      | Inr contents \<Rightarrow> walk n P repo contents [] (logged [Call_get_contents repo []] st))"
| "walk n P repo [] results st = Some (Inr results, st)"
| "walk 0 P repo (c # contents) results st = None"
| "walk (Suc n) P repo (c # contents) results st =
     (if ctype c = u ''file'' then
        (if path c \<in> processed_files st then walk n P repo contents results st
         else
           (case decoded c of
              Inl e \<Rightarrow>
                walk n P repo contents results
                  (logged [Call_decoded_content (path c),
                           Print (u ''Error reading file '' @ path c @ u '': '' @ str e)]
                     (st\<lparr>processed_files := insert (path c) (processed_files st)\<rparr>))
            | Inr file_content \<Rightarrow>
                walk n P repo contents
                  (results @ findings_of (path c) (check_file_for_passwords file_content (path c)))
                  (logged [Call_decoded_content (path c)]
                     (st\<lparr>processed_files := insert (path c) (processed_files st)\<rparr>))))
      else if ctype c = u ''dir'' then
        (case get_contents (P repo) (path c) of
           Inl e \<Rightarrow> Some (Inl e, logged [Call_get_contents repo (path c)] st)
         | Inr children \<Rightarrow>
             walk n P repo (contents @ children) results (logged [Call_get_contents repo (path c)] st))
      else if ctype c = u ''submodule'' then
        (case get_submodule (P repo) (path c) of
           Inl e \<Rightarrow>
             walk n P repo contents results
               (logged [Call_get_submodule repo (path c),
                        Print (u ''Error processing submodule '' @ path c @ u '': '' @ str e)] st)
         | Inr None \<Rightarrow>
             walk n P repo contents results
               (logged [Call_get_submodule repo (path c),
                        Print (u ''Warning: Could not get repository object for submodule: ''
                                 @ path c)] st)
         | Inr (Some sub_repo) \<Rightarrow>
             (case process_repository n P sub_repo
                     (logged [Call_get_submodule repo (path c)] st) of
                None \<Rightarrow> None
              | Some (Inl e, st') \<Rightarrow>
                  walk n P repo contents results
                    (logged [Print (u ''Error processing submodule '' @ path c @ u '': '' @ str e)]
                       st')
              | Some (Inr sub_results, st') \<Rightarrow>
                  walk n P repo contents (results @ sub_results) st'))
      else
        walk n P repo contents results
          (logged [Print (u ''Unknown content type: '' @ ctype c @ u '' in '' @ path c)] st))"

section \<open>The report\<close>

text \<open>
  The sheet of the workbook: the cells written so far, by row and column, both counted
  from 1. A cell holds the value written to it, a text or a number.
\<close>

datatype cell = Text ustr | Number nat

type_synonym sheet = "nat \<times> nat \<rightharpoonup> cell"

definition EXCEL_FILE :: ustr where
  "EXCEL_FILE = u ''hardcoded_passwords.xlsx''"

definition SHEET_NAME :: ustr where
  "SHEET_NAME = u ''Passwords''"

definition START_ROW :: nat where
  "START_ROW = 1"

definition START_COL :: nat where
  "START_COL = 1"

definition headers :: "ustr list" where
  "headers = [u ''File Path'', u ''Matched String'', u ''Line Number'', u ''Full Line'']"

text \<open>The two loops of \<^verbatim>\<open>write_to_excel\<close>, over \<^verbatim>\<open>enumerate(..., start=...)\<close>.\<close>

fun write_headers :: "nat \<Rightarrow> ustr list \<Rightarrow> sheet \<Rightarrow> sheet" where
  "write_headers col [] sh = sh"
| "write_headers col (header # hs) sh =
     write_headers (col + 1) hs (sh((START_ROW, col) \<mapsto> Text header))"

fun write_data :: "nat \<Rightarrow> finding list \<Rightarrow> sheet \<Rightarrow> sheet" where
  "write_data row [] sh = sh"
| "write_data row ((file_path, matched_string, line_number, full_line) # rs) sh =
     write_data (row + 1) rs
       (sh((row, START_COL) \<mapsto> Text file_path,
           (row, START_COL + 1) \<mapsto> Text matched_string,
           (row, START_COL + 2) \<mapsto> Number line_number,
           (row, START_COL + 3) \<mapsto> Text full_line))"

text \<open>
  \<^verbatim>\<open>write_to_excel\<close> returns what it leaves behind: the saved workbook, as the title and
  the cells of its sheet, and the events of saving and printing.
\<close>

definition write_to_excel :: "finding list \<Rightarrow> (ustr \<times> sheet) \<times> event list" where
  "write_to_excel results =
     ((SHEET_NAME, write_data (START_ROW + 1) results (write_headers START_COL headers Map.empty)),
      [Save EXCEL_FILE, Print (u ''Results written to '' @ EXCEL_FILE)])"

section \<open>The driver\<close>

text \<open>
  The surroundings of \<^verbatim>\<open>main\<close>: the environment variables (after \<^verbatim>\<open>load_dotenv()\<close>), the
  connection (\<^verbatim>\<open>Github(token).get_repo(name)\<close> with the \<^verbatim>\<open>full_name\<close> of the repository it
  finds, or the exception), and the repositories of the service.
\<close>

record system =
  environ :: "ustr \<rightharpoonup> ustr"
  get_repo :: "ustr \<Rightarrow> ustr \<Rightarrow> exn + (nat \<times> ustr)"
  repositories :: provider

text \<open>
  A run of \<^verbatim>\<open>main\<close> ends with the exception nothing caught, if any, the events in order,
  and the workbook it saved, if any.
\<close>

record run =
  uncaught :: "exn option"
  events :: "event list"
  report :: "(ustr \<times> sheet) option"

definition token_missing :: "event list" where
  "token_missing =
     [Print (u ''Error: GITHUB_TOKEN environment variable not set.''),
      Print (u ''Please set the GITHUB_TOKEN environment variable with your GitHub personal access token.''),
      Print (u ''You can create a personal access token here: https://github.com/settings/tokens'')]"

definition repo_missing :: "event list" where
  "repo_missing =
     [Print (u ''Error: GITHUB_REPO environment variable not set.''),
      Print (u ''Please set the GITHUB_REPO environment variable with the name of the repository to scan (e.g., '' @ [39] @ u ''your_username/your_repo_name'' @ [39] @ u '').'')]"

text \<open>\<^verbatim>\<open>not value\<close> of a variable read with \<^verbatim>\<open>os.environ.get\<close>: unset, or set to the empty text.\<close>

fun falsy :: "ustr option \<Rightarrow> bool" where
  "falsy None = True"
| "falsy (Some v) = (v = [])"

definition main :: "nat \<Rightarrow> system \<Rightarrow> run option" where
  "main n sys =
     (let github_token = environ sys (u ''GITHUB_TOKEN'') in
      if falsy github_token
      then Some \<lparr>uncaught = None, events = token_missing, report = None\<rparr>
      else
        let repo_name = environ sys (u ''GITHUB_REPO'') in
        if falsy repo_name
        then Some \<lparr>uncaught = None, events = repo_missing, report = None\<rparr>
        else
          (case (github_token, repo_name) of
             (Some token, Some name) \<Rightarrow>
               (case get_repo sys token name of
                  Inl e \<Rightarrow>
                    Some \<lparr>uncaught = None,
                          events =
                            [Call_get_repo token name,
                             Print (u ''Error connecting to GitHub or accessing the repository: '' @ str e),
                             Print (u ''Please check your GITHUB_TOKEN and GITHUB_REPO environment variables.'')],
                          report = None\<rparr>
                | Inr (repo, full_name) \<Rightarrow>
                    (case process_repository n (repositories sys) repo
                            \<lparr>processed_files = {},
                             log = [Call_get_repo token name,
                                    Print (u ''Scanning repository: '' @ full_name)]\<rparr> of
                       None \<Rightarrow> None
                     | Some (Inl e, st) \<Rightarrow> Some \<lparr>uncaught = Some e, events = log st, report = None\<rparr>
                     | Some (Inr results, st) \<Rightarrow>
                         if results \<noteq> []
                         then
                           (case write_to_excel results of
                              (book, es) \<Rightarrow>
                                Some \<lparr>uncaught = None, events = log st @ es, report = Some book\<rparr>)
                         else
                           Some \<lparr>uncaught = None,
                                 events = log st @ [Print (u ''No potential hardcoded passwords found.'')],
                                 report = None\<rparr>))
           | _ \<Rightarrow> None))"


section \<open>The shape the pattern looks for\<close>

text \<open>
  The words of the specification: a keyword in any mix of cases; a value character is
  anything but whitespace, the two quotes, \<^verbatim>\<open>&\<close> and \<^verbatim>\<open>;\<close>. A text \<open>s\<close> starts with an
  occurrence of value \<open>v\<close> when it reads: keyword, whitespace if any, \<^verbatim>\<open>:\<close> or \<^verbatim>\<open>=\<close>,
  whitespace if any, a quote if any, then \<open>v\<close> as the whole run of value characters there.
\<close>

definition keyword_list :: "string list" where
  "keyword_list = [''password'', ''passwd'', ''pwd'', ''secret'', ''token'', ''key'']"

definition is_keyword :: "ustr \<Rightarrow> bool" where
  "is_keyword kw \<longleftrightarrow> list_ex (\<lambda>w. list_all2 ignorecase_eq (u w) kw) keyword_list"

definition value_char :: "nat \<Rightarrow> bool" where
  "value_char c \<longleftrightarrow> \<not> isspace c \<and> c \<noteq> 39 \<and> c \<noteq> 34 \<and> c \<noteq> 38 \<and> c \<noteq> 59"

definition ends_run :: "ustr \<Rightarrow> bool" where
  "ends_run rest = (case rest of [] \<Rightarrow> True | c # _ \<Rightarrow> \<not> value_char c)"

definition occurrence :: "ustr \<Rightarrow> ustr \<Rightarrow> bool" where
  "occurrence s v \<longleftrightarrow>
     (\<exists>kw ws1 sep ws2 q rest.
        s = kw @ ws1 @ [sep] @ ws2 @ q @ v @ rest \<and>
        is_keyword kw \<and> list_all isspace ws1 \<and> (sep = 58 \<or> sep = 61) \<and>
        list_all isspace ws2 \<and> (q = [] \<or> q = [39] \<or> q = [34]) \<and>
        v \<noteq> [] \<and> list_all value_char v \<and> ends_run rest)"

text \<open>
  A text contains a keyword when some stretch of it is one. The leftmost occurrence of a
  line is the one no other occurrence starts before.
\<close>

definition contains_keyword :: "ustr \<Rightarrow> bool" where
  "contains_keyword s \<longleftrightarrow> (\<exists>pre kw post. s = pre @ kw @ post \<and> is_keyword kw)"

definition leftmost_occurrence :: "ustr \<Rightarrow> ustr \<Rightarrow> bool" where
  "leftmost_occurrence line v \<longleftrightarrow>
     (\<exists>pre s. line = pre @ s \<and> occurrence s v \<and>
        (\<forall>j<length pre. \<forall>v'. \<not> occurrence (drop j line) v'))"

text \<open>
  The same shape read off a text from left to right, used to reason about the matcher:
  the lower-case letter a character stands for, what follows a keyword, and the
  keywords tried in the order of the pattern.
\<close>

definition lower_of :: "nat \<Rightarrow> nat" where
  "lower_of c =
     (if 65 \<le> c \<and> c \<le> 90 then c + 32 else if c = 383 then 115 else if c = 8490 then 107 else c)"

definition unquote :: "ustr \<Rightarrow> ustr" where
  "unquote t = (case t of [] \<Rightarrow> [] | q # r \<Rightarrow> if q = 39 \<or> q = 34 then r else t)"

definition tail_match :: "ustr \<Rightarrow> ustr option" where
  "tail_match s =
     (case dropWhile isspace s of
        [] \<Rightarrow> None
      | c # t \<Rightarrow>
          if (c = 58 \<or> c = 61) \<and> takeWhile value_char (unquote (dropWhile isspace t)) \<noteq> []
          then Some (takeWhile value_char (unquote (dropWhile isspace t)))
          else None)"

definition ci_prefix :: "string \<Rightarrow> ustr \<Rightarrow> bool" where
  "ci_prefix w s \<longleftrightarrow> length w \<le> length s \<and> list_all2 ignorecase_eq (u w) (take (length w) s)"

fun here :: "string list \<Rightarrow> ustr \<Rightarrow> (ustr \<times> ustr) option" where
  "here [] s = None"
| "here (w # ws) s =
     (if ci_prefix w s
      then (case tail_match (drop (length w) s) of
              Some v \<Rightarrow> Some (take (length w) s, v)
            | None \<Rightarrow> here ws s)
      else here ws s)"

definition accept :: "ustr \<Rightarrow> groups \<Rightarrow> groups option" where
  "accept s g = Some g"

fun search_here :: "ustr \<Rightarrow> (ustr \<times> ustr) option" where
  "search_here [] = here keyword_list []"
| "search_here (c # cs) =
     (case here keyword_list (c # cs) of Some r \<Rightarrow> Some r | None \<Rightarrow> search_here cs)"

fun has_keyword :: "ustr \<Rightarrow> bool" where
  "has_keyword [] = False"
| "has_keyword (c # cs) = (list_ex (\<lambda>w. ci_prefix w (c # cs)) keyword_list \<or> has_keyword cs)"

section \<open>Events of a run\<close>

text \<open>
  The kinds of event the claims speak of: a printed line; a call to the service; the
  paths whose content a run read, in order; and the events a walk can add to the log,
  which are calls of the walk and printed lines.
\<close>

fun is_print :: "event \<Rightarrow> bool" where
  "is_print (Print m) = True"
| "is_print e = False"

fun is_call :: "event \<Rightarrow> bool" where
  "is_call (Print m) = False"
| "is_call (Save f) = False"
| "is_call e = True"

fun scanned :: "event list \<Rightarrow> ustr list" where
  "scanned [] = []"
| "scanned (Call_decoded_content p # es) = p # scanned es"
| "scanned (e # es) = scanned es"

fun walk_event :: "event \<Rightarrow> bool" where
  "walk_event (Save f) = False"
| "walk_event (Call_get_repo t n) = False"
| "walk_event e = True"

text \<open>
  How a walk changes the state, from \<open>st\<close> to \<open>st'\<close>, and what it adds to the results: the
  set of processed files grows; the log grows by events of the walk; the paths read in
  between are read once each and are the paths the set grew by; the new findings are of
  those paths, no two of one path and line.
\<close>

definition finding_key :: "finding \<Rightarrow> ustr \<times> nat" where
  "finding_key f = (case f of (file_path, password, line_number, full_line) \<Rightarrow> (file_path, line_number))"

definition grows :: "state \<Rightarrow> state \<Rightarrow> finding list \<Rightarrow> bool" where
  "grows st st' new \<longleftrightarrow>
     processed_files st \<subseteq> processed_files st' \<and>
     (\<exists>es. log st' = log st @ es \<and> list_all walk_event es \<and> distinct (scanned es) \<and>
        set (scanned es) = processed_files st' - processed_files st) \<and>
     fst ` set new \<subseteq> processed_files st' - processed_files st \<and>
     distinct (map finding_key new)"


section \<open>Properties of the pattern\<close>

lemma sre_match_word:
  "sre_match (word w) s g k = (if ci_prefix w s then k (drop (length w) s) g else None)"
proof (induction w arbitrary: s)
  case Nil
  then show ?case by (simp add: word_def ci_prefix_def)
next
  case (Cons c w)
  have w: "word (c # w) = Seq (Atom (Literal (of_char c))) (word w)"
    by (simp add: word_def)
  show ?case
  proof (cases s)
    case Nil
    then show ?thesis by (simp add: w ci_prefix_def)
  next
    case (Cons x xs)
    then show ?thesis
      using Cons.IH [of xs] by (auto simp add: w ci_prefix_def)
  qed
qed

lemma star_greedy:
  "k (dropWhile (atom_ok a) s) g = Some m \<Longrightarrow> sre_match (Star a) s g k = Some m"
  by (induction s) auto

lemma star_backoff:
  "(\<And>c t. atom_ok a c \<Longrightarrow> k (c # t) g = None) \<Longrightarrow>
     sre_match (Star a) s g k = k (dropWhile (atom_ok a) s) g"
  by (induction s) (auto split: option.splits)

lemma space_atom: "atom_ok (In [Category_space]) = isspace"
  by (rule ext) simp

lemma value_atom:
  "atom_ok (Not_in [Category_space, Chr 39, Chr 34, Chr 38, Chr 59]) = value_char"
  by (rule ext) (auto simp add: value_char_def)

lemma quote_atom: "atom_ok (In [Chr 39, Chr 34]) = (\<lambda>c. c = 39 \<or> c = 34)"
  by (rule ext) simp

lemma sep_atom: "atom_ok (In [Chr 58, Chr 61]) = (\<lambda>c. c = 58 \<or> c = 61)"
  by (rule ext) simp

lemmas atoms = space_atom value_atom quote_atom sep_atom

lemma opt_accept: "sre_match (Opt a) s g accept = Some g"
  by (cases s) (auto simp add: Opt_def accept_def)

lemma seq_opt:
  "sre_match (Seq (Opt a) r) [] g k = sre_match r [] g k"
  "sre_match (Seq (Opt a) r) (c # cs) g k =
     (if atom_ok a c
      then (case sre_match r cs g k of Some m \<Rightarrow> Some m | None \<Rightarrow> sre_match r (c # cs) g k)
      else sre_match r (c # cs) g k)"
  by (simp_all add: Opt_def split: option.splits)

lemma take_takeWhile: "take (length xs - length (dropWhile P xs)) xs = takeWhile P xs"
proof -
  have "length xs - length (dropWhile P xs) = length (takeWhile P xs)"
    by (metis add_diff_cancel_right' length_append takeWhile_dropWhile_id)
  then show ?thesis
    by (metis append_eq_conv_conj takeWhile_dropWhile_id)
qed

lemma match_value:
  "sre_match (Seq (Group 2 (Plus (Not_in [Category_space, Chr 39, Chr 34, Chr 38, Chr 59])))
                  (Opt (In [Chr 39, Chr 34]))) t g accept =
     (if takeWhile value_char t = [] then None else Some (g(2 \<mapsto> takeWhile value_char t)))"
proof (cases t)
  case Nil
  then show ?thesis by (simp add: Plus_def)
next
  case (Cons c cs)
  let ?k = "\<lambda>s' g'. sre_match (Opt (In [Chr 39, Chr 34])) s'
                     (g'(2 \<mapsto> take (length t - length s') t)) accept"
  show ?thesis
  proof (cases "value_char c")
    case False
    with Cons show ?thesis by (simp add: Plus_def atoms del: atom_ok.simps)
  next
    case True
    have "?k (dropWhile value_char cs) g = Some (g(2 \<mapsto> takeWhile value_char t))"
      using take_takeWhile [of t value_char] Cons True by (simp add: opt_accept)
    then have "sre_match (Star (Not_in [Category_space, Chr 39, Chr 34, Chr 38, Chr 59])) cs g ?k
                 = Some (g(2 \<mapsto> takeWhile value_char t))"
      by (intro star_greedy) (simp add: atoms del: atom_ok.simps)
    with Cons True show ?thesis by (simp add: Plus_def atoms del: atom_ok.simps)
  qed
qed

lemma match_quoted:
  "sre_match (Seq (Opt (In [Chr 39, Chr 34]))
               (Seq (Group 2 (Plus (Not_in [Category_space, Chr 39, Chr 34, Chr 38, Chr 59])))
                  (Opt (In [Chr 39, Chr 34])))) t g accept =
     (if takeWhile value_char (unquote t) = [] then None
      else Some (g(2 \<mapsto> takeWhile value_char (unquote t))))"
proof (cases t)
  case Nil
  then show ?thesis
    by (simp add: seq_opt match_value unquote_def del: sre_match.simps)
next
  case (Cons c cs)
  show ?thesis
  proof (cases "c = 39 \<or> c = 34")
    case True
    then have nv: "\<not> value_char c" by (auto simp add: value_char_def)
    from True Cons nv show ?thesis
      by (auto simp add: seq_opt match_value unquote_def atoms simp del: sre_match.simps atom_ok.simps)
  next
    case False
    with Cons show ?thesis
      by (auto simp add: seq_opt match_value unquote_def atoms simp del: sre_match.simps atom_ok.simps)
  qed
qed


lemma not_value_space: "isspace c \<Longrightarrow> \<not> value_char c"
  by (simp add: value_char_def)

lemma space_not_quote: "isspace c \<Longrightarrow> c \<noteq> 39 \<and> c \<noteq> 34 \<and> c \<noteq> 58 \<and> c \<noteq> 61"
  by (auto simp add: isspace_def)

lemma match_spaced:
  "sre_match (Seq (Star (In [Category_space]))
               (Seq (Opt (In [Chr 39, Chr 34]))
                 (Seq (Group 2 (Plus (Not_in [Category_space, Chr 39, Chr 34, Chr 38, Chr 59])))
                    (Opt (In [Chr 39, Chr 34]))))) t g accept =
     (if takeWhile value_char (unquote (dropWhile isspace t)) = [] then None
      else Some (g(2 \<mapsto> takeWhile value_char (unquote (dropWhile isspace t)))))"
proof -
  let ?QV = "Seq (Opt (In [Chr 39, Chr 34]))
                 (Seq (Group 2 (Plus (Not_in [Category_space, Chr 39, Chr 34, Chr 38, Chr 59])))
                    (Opt (In [Chr 39, Chr 34])))"
  let ?k = "\<lambda>s' g'. sre_match ?QV s' g' accept"
  have fail: "?k (c # t') g = None" if "atom_ok (In [Category_space]) c" for c t'
  proof -
    from that have sp: "isspace c" by (simp add: space_atom)
    then have "unquote (c # t') = c # t'"
      using space_not_quote [of c] by (simp add: unquote_def)
    with sp show ?thesis
      by (simp only: match_quoted) (simp add: not_value_space)
  qed
  have "sre_match (Seq (Star (In [Category_space])) ?QV) t g accept
          = sre_match (Star (In [Category_space])) t g ?k"
    by (simp only: sre_match.simps(4))
  also have "\<dots> = ?k (dropWhile (atom_ok (In [Category_space])) t) g"
    by (rule star_backoff) (rule fail)
  also have "\<dots> = ?k (dropWhile isspace t) g"
    by (simp only: space_atom)
  finally show ?thesis
    by (simp only: match_quoted)
qed

lemma match_tail:
  "sre_match (Seq (Star (In [Category_space]))
             (Seq (Atom (In [Chr 58, Chr 61]))
             (Seq (Star (In [Category_space]))
               (Seq (Opt (In [Chr 39, Chr 34]))
                 (Seq (Group 2 (Plus (Not_in [Category_space, Chr 39, Chr 34, Chr 38, Chr 59])))
                    (Opt (In [Chr 39, Chr 34]))))))) s g accept =
     map_option (\<lambda>v. g(2 \<mapsto> v)) (tail_match s)"
proof -
  let ?SQV = "Seq (Star (In [Category_space]))
               (Seq (Opt (In [Chr 39, Chr 34]))
                 (Seq (Group 2 (Plus (Not_in [Category_space, Chr 39, Chr 34, Chr 38, Chr 59])))
                    (Opt (In [Chr 39, Chr 34]))))"
  let ?k = "\<lambda>s' g'. sre_match (Seq (Atom (In [Chr 58, Chr 61])) ?SQV) s' g' accept"
  have step: "?k w g = (case w of [] \<Rightarrow> None | c # t \<Rightarrow> if c = 58 \<or> c = 61
              then sre_match ?SQV t g accept else None)" for w
  proof (cases w)
    case Nil
    show ?thesis unfolding Nil by (simp only: sre_match.simps(2,4) list.case)
  next
    case (Cons c t)
    show ?thesis unfolding Cons by (simp only: sre_match.simps(3,4) list.case sep_atom)
  qed
  have fail: "?k (c # t') g = None" if "atom_ok (In [Category_space]) c" for c t'
  proof -
    from that have sp: "isspace c" by (simp add: space_atom)
    then show ?thesis
      using space_not_quote [of c] by (simp only: step) simp
  qed
  have "sre_match (Seq (Star (In [Category_space])) (Seq (Atom (In [Chr 58, Chr 61])) ?SQV))
          s g accept = sre_match (Star (In [Category_space])) s g ?k"
    by (simp only: sre_match.simps(4))
  also have "\<dots> = ?k (dropWhile (atom_ok (In [Category_space])) s) g"
    by (rule star_backoff) (rule fail)
  also have "\<dots> = ?k (dropWhile isspace s) g"
    by (simp only: space_atom)
  finally have eq: "sre_match (Seq (Star (In [Category_space]))
      (Seq (Atom (In [Chr 58, Chr 61])) ?SQV)) s g accept = ?k (dropWhile isspace s) g" .
  show ?thesis
    unfolding eq step match_spaced tail_match_def
    by (cases "dropWhile isspace s") (simp_all add: Let_def del: dropWhile_eq_Nil_conv)
qed


lemma match_here:
  "sre_match PASSWORD_REGEX s g accept =
     map_option (\<lambda>(kw, v). g(1 \<mapsto> kw, 2 \<mapsto> v)) (here keyword_list s)"
proof -
  let ?TAIL = "Seq (Star (In [Category_space]))
             (Seq (Atom (In [Chr 58, Chr 61]))
             (Seq (Star (In [Category_space]))
               (Seq (Opt (In [Chr 39, Chr 34]))
                 (Seq (Group 2 (Plus (Not_in [Category_space, Chr 39, Chr 34, Chr 38, Chr 59])))
                    (Opt (In [Chr 39, Chr 34]))))))"
  let ?K = "\<lambda>s' g'. sre_match ?TAIL s' (g'(1 \<mapsto> take (length s - length s') s)) accept"
  have W: "sre_match (word w) s g ?K =
             (if ci_prefix w s
              then map_option (\<lambda>v. g(1 \<mapsto> take (length w) s, 2 \<mapsto> v)) (tail_match (drop (length w) s))
              else None)" for w
  proof (cases "ci_prefix w s")
    case True
    then have "length s - length (drop (length w) s) = length w"
      by (simp add: ci_prefix_def)
    with True show ?thesis
      by (simp only: sre_match_word match_tail if_True)
  next
    case False
    then show ?thesis by (simp only: sre_match_word if_False)
  qed
  have "sre_match PASSWORD_REGEX s g accept =
          sre_match (Alt (word ''password'') (Alt (word ''passwd'') (Alt (word ''pwd'')
            (Alt (word ''secret'') (Alt (word ''token'') (word ''key'')))))) s g ?K"
    unfolding PASSWORD_REGEX_def by (simp only: sre_match.simps(4,8))
  also have "\<dots> = map_option (\<lambda>(kw, v). g(1 \<mapsto> kw, 2 \<mapsto> v)) (here keyword_list s)"
    unfolding sre_match.simps(5) W keyword_list_def here.simps
    by (simp split: option.splits)
  finally show ?thesis .
qed


lemma accept_eq: "(\<lambda>s' g'. Some g') = accept"
  by (rule ext, rule ext) (simp add: accept_def)

lemma re_search_here:
  "re_search PASSWORD_REGEX s =
     map_option (\<lambda>(kw, v). [1 \<mapsto> kw, 2 \<mapsto> v]) (search_here s)"
proof (induction s)
  case Nil
  show ?case
    unfolding re_search.simps accept_eq match_here search_here.simps ..
next
  case (Cons c cs)
  show ?case
    unfolding re_search.simps accept_eq match_here search_here.simps Cons.IH
    by (cases "here keyword_list (c # cs)") (simp_all only: option.case option.map)
qed

lemma ignorecase_lower: "97 \<le> p \<Longrightarrow> p \<le> 122 \<Longrightarrow> ignorecase_eq p c \<longleftrightarrow> p = lower_of c"
  by (auto simp add: ignorecase_eq_def lower_of_def)

lemma keyword_letters: "w \<in> set keyword_list \<Longrightarrow> x \<in> set (u w) \<Longrightarrow> 97 \<le> x \<and> x \<le> 122"
  by (auto simp add: keyword_list_def)

lemma ci_as_lower:
  assumes "w \<in> set keyword_list"
  shows "list_all2 ignorecase_eq (u w) xs \<longleftrightarrow> u w = map lower_of xs"
proof -
  have "list_all2 ignorecase_eq (u w) xs \<longleftrightarrow> list_all2 (\<lambda>p c. p = lower_of c) (u w) xs"
    by (rule list.rel_cong [OF refl refl])
       (use keyword_letters [OF assms] ignorecase_lower in blast)
  also have "\<dots> \<longleftrightarrow> list_all2 (=) (u w) (map lower_of xs)"
    by (simp add: list_all2_map2)
  finally show ?thesis by (simp add: list_all2_eq)
qed

lemma ci_prefix_lower:
  "w \<in> set keyword_list \<Longrightarrow> ci_prefix w s \<longleftrightarrow> length w \<le> length s \<and> u w = take (length w) (map lower_of s)"
  by (simp add: ci_prefix_def ci_as_lower take_map)

lemma keyword_no_prefix:
  "w \<in> set keyword_list \<Longrightarrow> w' \<in> set keyword_list \<Longrightarrow>
     take (length w) (u w') = take (length w') (u w) \<Longrightarrow> w = w'"
  by (auto simp add: keyword_list_def)

lemma keyword_unique:
  assumes "w \<in> set keyword_list" "w' \<in> set keyword_list" "ci_prefix w s" "ci_prefix w' s"
  shows "w = w'"
proof -
  let ?L = "map lower_of s"
  from assms have 1: "u w = take (length w) ?L" and 2: "u w' = take (length w') ?L"
    by (simp_all add: ci_prefix_lower)
  have "take (length w) (u w') = take (min (length w) (length w')) ?L"
    by (subst 2) simp
  moreover have "take (length w') (u w) = take (min (length w') (length w)) ?L"
    by (subst 1) simp
  ultimately have "take (length w) (u w') = take (length w') (u w)"
    by (simp add: min.commute)
  with assms(1,2) show ?thesis by (rule keyword_no_prefix)
qed

lemma is_keyword_iff: "is_keyword kw \<longleftrightarrow> (\<exists>w\<in>set keyword_list. list_all2 ignorecase_eq (u w) kw)"
  by (simp add: is_keyword_def list_ex_iff)

lemma ci_prefix_keyword:
  "w \<in> set keyword_list \<Longrightarrow> ci_prefix w s \<Longrightarrow> is_keyword (take (length w) s)"
  unfolding is_keyword_iff ci_prefix_def by blast

lemma keyword_ci_prefix:
  assumes "is_keyword kw"
  obtains w where "w \<in> set keyword_list" "ci_prefix w (kw @ t)" "length w = length kw"
proof -
  from assms obtain w where w: "w \<in> set keyword_list" "list_all2 ignorecase_eq (u w) kw"
    unfolding is_keyword_iff by blast
  then have len: "length w = length kw"
    using list_all2_lengthD by fastforce
  with w have "ci_prefix w (kw @ t)"
    by (simp add: ci_prefix_def)
  with w len show thesis using that by blast
qed

lemma here_Some:
  "here ws s = Some (kw, v) \<Longrightarrow>
     \<exists>w\<in>set ws. ci_prefix w s \<and> kw = take (length w) s \<and> tail_match (drop (length w) s) = Some v"
  by (induction ws) (auto split: if_splits option.splits)

lemma here_unique:
  "w \<in> set ws \<Longrightarrow> ci_prefix w s \<Longrightarrow> tail_match (drop (length w) s) = Some v \<Longrightarrow>
     (\<And>w'. w' \<in> set ws \<Longrightarrow> ci_prefix w' s \<Longrightarrow> w' = w) \<Longrightarrow>
     here ws s = Some (take (length w) s, v)"
proof (induction ws)
  case Nil
  from Nil.prems(1) show ?case by simp
next
  case (Cons a ws)
  show ?case
  proof (cases "a = w")
    case True
    with Cons.prems(2,3) show ?thesis by simp
  next
    case False
    with Cons.prems(4) [of a] have na: "\<not> ci_prefix a s" by auto
    from False Cons.prems(1) have "w \<in> set ws" by simp
    then have "here ws s = Some (take (length w) s, v)"
      using Cons.prems(2,3)
    proof (rule Cons.IH)
      fix w'
      assume "w' \<in> set ws" "ci_prefix w' s"
      then show "w' = w" using Cons.prems(4) [of w'] by simp
    qed
    with na show ?thesis by simp
  qed
qed

lemma ends_run_dropWhile: "ends_run (dropWhile value_char r)"
proof (cases "dropWhile value_char r")
  case Nil
  show ?thesis unfolding ends_run_def Nil by simp
next
  case (Cons c cs)
  have "\<not> value_char (hd (dropWhile value_char r))"
    by (rule hd_dropWhile) (simp add: Cons del: dropWhile_eq_Nil_conv)
  then have "\<not> value_char c" by (simp add: Cons)
  then show ?thesis unfolding ends_run_def Cons by simp
qed

lemma unquote_split: "\<exists>q. (q = [] \<or> q = [39] \<or> q = [34]) \<and> d = q @ unquote d"
  by (cases d) (auto simp add: unquote_def)

lemma tail_match_Some:
  assumes "tail_match t = Some v"
  shows "\<exists>ws1 sep ws2 q rest.
           t = ws1 @ [sep] @ ws2 @ q @ v @ rest \<and> list_all isspace ws1 \<and> (sep = 58 \<or> sep = 61) \<and>
           list_all isspace ws2 \<and> (q = [] \<or> q = [39] \<or> q = [34]) \<and>
           v \<noteq> [] \<and> list_all value_char v \<and> ends_run rest"
proof -
  from assms obtain sep t' where d: "dropWhile isspace t = sep # t'"
    by (cases "dropWhile isspace t") (simp_all add: tail_match_def del: dropWhile_eq_Nil_conv)
  let ?v = "takeWhile value_char (unquote (dropWhile isspace t'))"
  from assms have "(if (sep = 58 \<or> sep = 61) \<and> ?v \<noteq> [] then Some ?v else None) = Some v"
    unfolding tail_match_def d by simp
  then have "(sep = 58 \<or> sep = 61) \<and> ?v \<noteq> [] \<and> ?v = v"
    by (cases "(sep = 58 \<or> sep = 61) \<and> ?v \<noteq> []") simp_all
  then have sep: "sep = 58 \<or> sep = 61" and v: "v = ?v" and ne: "v \<noteq> []"
    by blast+
  obtain q where q: "q = [] \<or> q = [39] \<or> q = [34]"
    "dropWhile isspace t' = q @ unquote (dropWhile isspace t')"
    using unquote_split by blast
  let ?r = "unquote (dropWhile isspace t')"
  have "t = takeWhile isspace t @ dropWhile isspace t" by simp
  also have "\<dots> = takeWhile isspace t @ [sep] @ t'" by (simp add: d)
  also have "t' = takeWhile isspace t' @ dropWhile isspace t'" by simp
  also have "dropWhile isspace t' = q @ ?r" by (rule q(2))
  also have "?r = v @ dropWhile value_char ?r" by (simp add: v)
  finally have eq: "t = takeWhile isspace t @ [sep] @ takeWhile isspace t' @ q @ v @ dropWhile value_char ?r" .
  have "list_all P (takeWhile P xs)" for P :: "nat \<Rightarrow> bool" and xs
    by (induction xs) simp_all
  then have all: "list_all isspace (takeWhile isspace t)" "list_all isspace (takeWhile isspace t')"
    "list_all value_char v"
    by (simp_all add: v)
  show ?thesis
    apply (rule exI [of _ "takeWhile isspace t"])
    apply (rule exI [of _ sep])
    apply (rule exI [of _ "takeWhile isspace t'"])
    apply (rule exI [of _ q])
    apply (rule exI [of _ "dropWhile value_char ?r"])
    apply (intro conjI)
    apply (rule eq, rule all(1), rule sep, rule all(2), rule q(1), rule ne, rule all(3),
        rule ends_run_dropWhile)
    done
qed

lemma tail_match_intro:
  assumes "list_all isspace ws1" "sep = 58 \<or> sep = 61" "list_all isspace ws2"
    "q = [] \<or> q = [39] \<or> q = [34]" "v \<noteq> []" "list_all value_char v" "ends_run rest"
  shows "tail_match (ws1 @ [sep] @ ws2 @ q @ v @ rest) = Some v"
proof -
  from assms(2) have nsp: "\<not> isspace sep" by (auto simp add: isspace_def)
  obtain c cs where v: "v = c # cs" using assms(5) by (cases v) auto
  with assms(6) have c: "value_char c" by simp
  then have cq: "\<not> isspace c" "c \<noteq> 39" "c \<noteq> 34" by (simp_all add: value_char_def)
  have 1: "dropWhile isspace (ws1 @ sep # ws2 @ q @ v @ rest) = sep # ws2 @ q @ v @ rest"
    using assms(1) nsp by (simp add: list_all_iff)
  have qsp: "dropWhile isspace (q @ v @ rest) = q @ v @ rest"
    using assms(4) cq v by (auto simp add: isspace_def)
  have 2: "dropWhile isspace (ws2 @ q @ v @ rest) = q @ v @ rest"
    using assms(3) qsp by (simp add: list_all_iff)
  have 3: "unquote (q @ v @ rest) = v @ rest"
    using assms(4) cq v by (auto simp add: unquote_def)
  have 4: "takeWhile value_char (v @ rest) = v"
  proof (cases rest)
    case Nil
    with assms(6) show ?thesis by (simp add: list_all_iff)
  next
    case (Cons x xs)
    with assms(7) have "\<not> value_char x" by (simp add: ends_run_def)
    with Cons assms(6) show ?thesis
      by (simp add: takeWhile_tail list_all_iff)
  qed
  show ?thesis
    using assms(2,5) by (simp add: tail_match_def 1 2 3 4)
qed

lemma here_occurrence: "(\<exists>kw. here keyword_list s = Some (kw, v)) \<longleftrightarrow> occurrence s v"
proof
  assume "\<exists>kw. here keyword_list s = Some (kw, v)"
  then obtain kw where "here keyword_list s = Some (kw, v)" ..
  from here_Some [OF this] obtain w where w: "w \<in> set keyword_list" "ci_prefix w s"
    "kw = take (length w) s" "tail_match (drop (length w) s) = Some v" by blast
  from tail_match_Some [OF w(4)] obtain ws1 sep ws2 q rest where
    t: "drop (length w) s = ws1 @ [sep] @ ws2 @ q @ v @ rest" "list_all isspace ws1"
      "sep = 58 \<or> sep = 61" "list_all isspace ws2" "q = [] \<or> q = [39] \<or> q = [34]"
      "v \<noteq> []" "list_all value_char v" "ends_run rest" by blast
  have "s = take (length w) s @ ws1 @ [sep] @ ws2 @ q @ v @ rest"
    using t(1) by (metis append_take_drop_id)
  moreover have "is_keyword (take (length w) s)"
    using w(1,2) by (rule ci_prefix_keyword)
  ultimately have "s = take (length w) s @ ws1 @ [sep] @ ws2 @ q @ v @ rest \<and>
        is_keyword (take (length w) s) \<and> list_all isspace ws1 \<and> (sep = 58 \<or> sep = 61) \<and>
        list_all isspace ws2 \<and> (q = [] \<or> q = [39] \<or> q = [34]) \<and>
        v \<noteq> [] \<and> list_all value_char v \<and> ends_run rest"
    using t(2-) by simp
  then show "occurrence s v"
    unfolding occurrence_def by (intro exI)
next
  assume "occurrence s v"
  then obtain kw ws1 sep ws2 q rest where
    s: "s = kw @ ws1 @ [sep] @ ws2 @ q @ v @ rest" and kw: "is_keyword kw" and
    t: "list_all isspace ws1" "sep = 58 \<or> sep = 61" "list_all isspace ws2"
      "q = [] \<or> q = [39] \<or> q = [34]" "v \<noteq> []" "list_all value_char v" "ends_run rest"
    unfolding occurrence_def by blast
  from kw obtain w where w: "w \<in> set keyword_list" "ci_prefix w s" "length w = length kw"
    by (rule keyword_ci_prefix [of kw "ws1 @ [sep] @ ws2 @ q @ v @ rest"]) (simp add: s)
  have "tail_match (drop (length w) s) = Some v"
    using tail_match_intro [OF t] w(3) s by simp
  with w(1,2) have "here keyword_list s = Some (take (length w) s, v)"
    by (rule here_unique) (use keyword_unique w in blast)
  then show "\<exists>kw. here keyword_list s = Some (kw, v)" ..
qed

lemma search_here_Some:
  "search_here s = Some r \<Longrightarrow>
     \<exists>pre t. s = pre @ t \<and> here keyword_list t = Some r \<and>
       (\<forall>j<length pre. here keyword_list (drop j s) = None)"
proof (induction s)
  case Nil
  then show ?case by simp
next
  case (Cons c cs)
  show ?case
  proof (cases "here keyword_list (c # cs)")
    case (Some r')
    with Cons.prems have "here keyword_list (c # cs) = Some r" by simp
    then have "c # cs = [] @ (c # cs) \<and> here keyword_list (c # cs) = Some r \<and>
        (\<forall>j<length ([]::ustr). here keyword_list (drop j (c # cs)) = None)" by simp
    then show ?thesis by blast
  next
    case None
    with Cons.prems have "search_here cs = Some r" by simp
    from Cons.IH [OF this] obtain pre t where
      h: "cs = pre @ t" "here keyword_list t = Some r"
         "\<forall>j<length pre. here keyword_list (drop j cs) = None" by blast
    have "\<forall>j<length (c # pre). here keyword_list (drop j (c # cs)) = None"
    proof (intro allI impI)
      fix j assume "j < length (c # pre)"
      then show "here keyword_list (drop j (c # cs)) = None"
        using None h(3) by (cases j) simp_all
    qed
    with h(1,2) have "c # cs = (c # pre) @ t \<and> here keyword_list t = Some r \<and>
        (\<forall>j<length (c # pre). here keyword_list (drop j (c # cs)) = None)" by simp
    then show ?thesis by blast
  qed
qed

lemma search_here_first:
  "here keyword_list t = Some r \<Longrightarrow>
     (\<forall>j<length pre. here keyword_list (drop j (pre @ t)) = None) \<Longrightarrow>
     search_here (pre @ t) = Some r"
proof (induction pre)
  case Nil
  then show ?case by (cases t) simp_all
next
  case (Cons a pre)
  from Cons.prems(2) have 0: "here keyword_list (a # pre @ t) = None"
    by fastforce
  have "\<forall>j<length pre. here keyword_list (drop j (pre @ t)) = None"
  proof (intro allI impI)
    fix j assume "j < length pre"
    then have "Suc j < length (a # pre)" by simp
    with Cons.prems(2) have "here keyword_list (drop (Suc j) ((a # pre) @ t)) = None"
      by blast
    then show "here keyword_list (drop j (pre @ t)) = None" by simp
  qed
  with Cons.IH Cons.prems(1) have "search_here (pre @ t) = Some r" by blast
  with 0 show ?case by simp
qed

lemma here_None_iff: "here keyword_list s = None \<longleftrightarrow> (\<forall>v. \<not> occurrence s v)"
proof -
  have "here keyword_list s = None \<longleftrightarrow> \<not> (\<exists>v kw. here keyword_list s = Some (kw, v))"
    by (cases "here keyword_list s") auto
  then show ?thesis by (simp add: here_occurrence)
qed

lemma search_leftmost: "(\<exists>kw. search_here line = Some (kw, v)) \<longleftrightarrow> leftmost_occurrence line v"
proof
  assume "\<exists>kw. search_here line = Some (kw, v)"
  then obtain kw where "search_here line = Some (kw, v)" ..
  from search_here_Some [OF this] obtain pre t where
    h: "line = pre @ t" "here keyword_list t = Some (kw, v)"
       "\<forall>j<length pre. here keyword_list (drop j line) = None" by blast
  from h(2) have "occurrence t v" using here_occurrence by blast
  with h(1,3) have "line = pre @ t \<and> occurrence t v \<and>
        (\<forall>j<length pre. \<forall>v'. \<not> occurrence (drop j line) v')"
    by (simp add: here_None_iff)
  then show "leftmost_occurrence line v"
    unfolding leftmost_occurrence_def by blast
next
  assume "leftmost_occurrence line v"
  then obtain pre s where h: "line = pre @ s" "occurrence s v"
    "\<forall>j<length pre. \<forall>v'. \<not> occurrence (drop j line) v'"
    unfolding leftmost_occurrence_def by blast
  from h(2) obtain kw where kw: "here keyword_list s = Some (kw, v)"
    using here_occurrence by blast
  from h(3) have "\<forall>j<length pre. here keyword_list (drop j (pre @ s)) = None"
    by (simp add: here_None_iff h(1))
  with kw have "search_here (pre @ s) = Some (kw, v)" by (rule search_here_first)
  then show "\<exists>kw. search_here line = Some (kw, v)" using h(1) by blast
qed

lemma search_here_keyword:
  assumes "search_here s = Some r"
  shows "contains_keyword s"
proof -
  from search_here_Some [OF assms] obtain pre t where
    h: "s = pre @ t" "here keyword_list t = Some r" by blast
  obtain kw v where r: "r = (kw, v)" by (cases r)
  from here_Some [OF h(2) [unfolded r]] obtain w where
    w: "w \<in> set keyword_list" "ci_prefix w t" by blast
  then have "is_keyword (take (length w) t)" by (rule ci_prefix_keyword)
  moreover have "s = pre @ take (length w) t @ drop (length w) t"
    by (simp add: h(1))
  ultimately show ?thesis unfolding contains_keyword_def by blast
qed

lemma splitlines_one_line:
  "list_all (\<lambda>c. \<not> linebreak c) s \<Longrightarrow> cur @ s \<noteq> [] \<Longrightarrow> splitlines_from cur s = [cur @ s]"
proof (induction s arbitrary: cur)
  case Nil
  then show ?case by simp
next
  case (Cons c cs)
  from Cons.prems(1) have c: "\<not> linebreak c" and cs: "list_all (\<lambda>c. \<not> linebreak c) cs"
    by simp_all
  from c have "c \<noteq> 13" by (auto simp add: linebreak_def)
  with c Cons.IH [OF cs, of "cur @ [c]"] show ?case by simp
qed

lemma splitlines_from_part:
  "l \<in> set (splitlines_from cur s) \<Longrightarrow>
     (\<exists>p b. s = p @ b \<and> l = cur @ p \<and> list_all (\<lambda>c. \<not> linebreak c) p) \<or>
     (\<exists>a b. s = a @ l @ b)"
proof (induction s arbitrary: cur)
  case Nil
  then have "l = cur" by (simp split: if_splits)
  then show ?case by simp
next
  case (Cons c cs)
  consider (crlf) "c = 13" "\<exists>ds. cs = 10 # ds" | (brk) "linebreak c" "\<not> (c = 13 \<and> (\<exists>ds. cs = 10 # ds))"
    | (chr) "\<not> linebreak c"
    by blast
  then show ?case
  proof cases
    case crlf
    then obtain ds where ds: "cs = 10 # ds" by blast
    with crlf Cons.prems have "l \<in> set (splitlines_from cur cs)" by simp
    from Cons.IH [OF this] show ?thesis
    proof
      assume "\<exists>p b. cs = p @ b \<and> l = cur @ p \<and> list_all (\<lambda>c. \<not> linebreak c) p"
      then obtain p b where p: "cs = p @ b" "l = cur @ p" "list_all (\<lambda>c. \<not> linebreak c) p"
        by blast
      have "p = []"
      proof (cases p)
        case (Cons x xs)
        with p(1) ds have "x = 10" by simp
        with Cons p(3) show ?thesis by (simp add: linebreak_def)
      qed simp
      with p(2) have "c # cs = [] @ (c # cs) \<and> l = cur @ [] \<and> list_all (\<lambda>c. \<not> linebreak c) []"
        by simp
      then show ?thesis by blast
    next
      assume "\<exists>a b. cs = a @ l @ b"
      then obtain a b where "cs = a @ l @ b" by blast
      then have "c # cs = (c # a) @ l @ b" by simp
      then show ?thesis by blast
    qed
  next
    case brk
    then have nc: "\<not> (c = 13 \<and> (case cs of [] \<Rightarrow> False | d # _ \<Rightarrow> d = 10))"
      by (auto split: list.splits)
    with brk(1) Cons.prems have "l = cur \<or> l \<in> set (splitlines_from [] cs)"
      by auto
    then show ?thesis
    proof
      assume "l = cur"
      then have "c # cs = [] @ (c # cs) \<and> l = cur @ [] \<and> list_all (\<lambda>c. \<not> linebreak c) []"
        by simp
      then show ?thesis by blast
    next
      assume "l \<in> set (splitlines_from [] cs)"
      from Cons.IH [OF this] obtain a b where "cs = a @ l @ b"
        by (metis append_Nil)
      then have "c # cs = (c # a) @ l @ b" by simp
      then show ?thesis by blast
    qed
  next
    case chr
    then have "c \<noteq> 13" by (auto simp add: linebreak_def)
    with chr Cons.prems have "l \<in> set (splitlines_from (cur @ [c]) cs)" by simp
    from Cons.IH [OF this] show ?thesis
    proof
      assume "\<exists>p b. cs = p @ b \<and> l = (cur @ [c]) @ p \<and> list_all (\<lambda>c. \<not> linebreak c) p"
      then obtain p b where p: "cs = p @ b" "l = (cur @ [c]) @ p" "list_all (\<lambda>c. \<not> linebreak c) p"
        by blast
      with chr have "c # cs = (c # p) @ b \<and> l = cur @ (c # p) \<and> list_all (\<lambda>c. \<not> linebreak c) (c # p)"
        by simp
      then show ?thesis by blast
    next
      assume "\<exists>a b. cs = a @ l @ b"
      then obtain a b where "cs = a @ l @ b" by blast
      then have "c # cs = (c # a) @ l @ b" by simp
      then show ?thesis by blast
    qed
  qed
qed

lemma splitlines_part: "l \<in> set (splitlines s) \<Longrightarrow> \<exists>a b. s = a @ l @ b"
  using splitlines_from_part [of l "[]" s] unfolding splitlines_def
  by (metis append_Nil)

lemma contains_keyword_part:
  "contains_keyword l \<Longrightarrow> s = a @ l @ b \<Longrightarrow> contains_keyword s"
proof -
  assume "contains_keyword l" and s: "s = a @ l @ b"
  then obtain pre kw post where "l = pre @ kw @ post" "is_keyword kw"
    unfolding contains_keyword_def by blast
  with s have "s = (a @ pre) @ kw @ (post @ b) \<and> is_keyword kw" by simp
  then show ?thesis unfolding contains_keyword_def by blast
qed

lemma matches_of_search:
  "matches_of i (line # lines) =
     (case search_here line of
        None \<Rightarrow> matches_of (i + 1) lines
      | Some (kw, v) \<Rightarrow> (v, i + 1, strip line) # matches_of (i + 1) lines)"
  by (cases "search_here line") (auto simp add: re_search_here)

lemma matches_of_elem:
  "(pw, n, full) \<in> set (matches_of i lines) \<Longrightarrow>
     i < n \<and> n \<le> i + length lines \<and> full = strip (lines ! (n - i - 1)) \<and>
     (\<exists>kw. search_here (lines ! (n - i - 1)) = Some (kw, pw))"
proof (induction lines arbitrary: i)
  case Nil
  then show ?case by simp
next
  case (Cons l ls)
  show ?case
  proof (cases "n = i + 1")
    case True
    have "(pw, i + 1, full) \<notin> set (matches_of (i + 1) ls)"
      using Cons.IH [of "i + 1"] True by auto
    with Cons.prems True show ?thesis
      by (auto simp add: matches_of_search simp del: matches_of.simps(2) split: option.splits)
  next
    case False
    with Cons.prems have mem: "(pw, n, full) \<in> set (matches_of (i + 1) ls)"
      by (auto simp add: matches_of_search simp del: matches_of.simps(2) split: option.splits)
    from Cons.IH [OF mem] have h: "i + 1 < n" "n \<le> i + 1 + length ls"
      "full = strip (ls ! (n - (i + 1) - 1))"
      "\<exists>kw. search_here (ls ! (n - (i + 1) - 1)) = Some (kw, pw)"
      by auto
    from h(1) have idx: "n - i - 1 = Suc (n - (i + 1) - 1)" by arith
    show ?thesis using h by (simp add: idx)
  qed
qed

lemma matches_of_complete:
  "k < length lines \<Longrightarrow> search_here (lines ! k) = Some (kw, v) \<Longrightarrow>
     (v, i + k + 1, strip (lines ! k)) \<in> set (matches_of i lines)"
proof (induction lines arbitrary: i k)
  case Nil
  then show ?case by simp
next
  case (Cons l ls)
  show ?case
  proof (cases k)
    case 0
    with Cons.prems show ?thesis
      by (simp add: matches_of_search del: matches_of.simps(2))
  next
    case (Suc k')
    with Cons.prems have "k' < length ls" "search_here (ls ! k') = Some (kw, v)" by simp_all
    from Cons.IH [OF this, of "i + 1"] Suc show ?thesis
      by (simp add: matches_of_search del: matches_of.simps(2) split: option.splits)
  qed
qed

lemma matches_of_length: "length (matches_of i lines) \<le> length lines"
  by (induction lines arbitrary: i)
     (simp_all add: matches_of_search le_SucI del: matches_of.simps(2) split: option.splits)

lemma matches_of_sorted: "sorted_wrt (<) (map (fst \<circ> snd) (matches_of i lines))"
proof (induction lines arbitrary: i)
  case Nil
  show ?case by simp
next
  case (Cons l ls)
  have "i + 1 < n" if "(pw, n, full) \<in> set (matches_of (i + 1) ls)" for pw n full
    using matches_of_elem [OF that] by simp
  then have "\<forall>x\<in>set (matches_of (i + 1) ls). i + 1 < (fst \<circ> snd) x"
    by auto
  with Cons.IH [of "i + 1"] show ?case
    by (simp add: matches_of_search del: matches_of.simps(2) split: option.splits)
qed

lemma matches_of_none:
  "(\<And>l. l \<in> set lines \<Longrightarrow> search_here l = None) \<Longrightarrow> matches_of i lines = []"
proof (induction lines arbitrary: i)
  case Nil
  show ?case by simp
next
  case (Cons l ls)
  have "search_here l = None" by (rule Cons.prems) simp
  moreover have "matches_of (i + 1) ls = []"
    by (rule Cons.IH) (simp add: Cons.prems)
  ultimately show ?case
    by (simp add: matches_of_search del: matches_of.simps(2))
qed

lemmas shape_eval = keyword_list_def ci_prefix_def ignorecase_eq_def tail_match_def unquote_def
  isspace_def value_char_def

lemmas text_eval = check_file_for_passwords_def splitlines_def linebreak_def strip_def isspace_def
  findings_of_def

lemma password_line:
  "search_here (u ''password = '' @ [34] @ u ''abc123'' @ [34]) = Some (u ''password'', u ''abc123'')"
  by (simp add: shape_eval)

lemma password_line_strip:
  "strip (u ''password = '' @ [34] @ u ''abc123'' @ [34]) = u ''password = '' @ [34] @ u ''abc123'' @ [34]"
  by (simp add: strip_def isspace_def)


section \<open>The matcher: what it returns\<close>

lemma keyword_nonempty: "is_keyword kw \<Longrightarrow> kw \<noteq> []"
  by (auto simp add: is_keyword_iff keyword_list_def)

lemma has_keyword_append: "has_keyword s \<Longrightarrow> has_keyword (pre @ s)"
  by (induction pre) simp_all

lemma contains_has_keyword:
  assumes "contains_keyword s"
  shows "has_keyword s"
proof -
  from assms obtain pre kw post where s: "s = pre @ kw @ post" and kw: "is_keyword kw"
    unfolding contains_keyword_def by blast
  from kw obtain w where w: "w \<in> set keyword_list" "ci_prefix w (kw @ post)"
    by (rule keyword_ci_prefix)
  from kw obtain c cs where "kw @ post = c # cs"
    using keyword_nonempty by (cases kw) auto
  with w have "has_keyword (kw @ post)"
    by (auto simp add: list_ex_iff)
  then show ?thesis unfolding s by (rule has_keyword_append)
qed

text \<open>
  Claim C1, as amended. A line without line boundary whose leftmost occurrence has the value
  \<open>v\<close> gives exactly one match: \<open>v\<close>, line number 1 and the stripped line. A text that
  contains no keyword, in any mix of cases, gives no match. A text whose fifth line is
  \<^verbatim>\<open>password = "abc123"\<close> gives the finding of that path with \<^verbatim>\<open>abc123\<close>, line 5 and
  the line.
\<close>

theorem matcher_leftmost_value:
  "(leftmost_occurrence line v \<and> list_all (\<lambda>c. \<not> linebreak c) line \<longrightarrow>
      check_file_for_passwords line file_path = [(v, 1, strip line)]) \<and>
   (\<not> contains_keyword file_content \<longrightarrow> check_file_for_passwords file_content file_path = []) \<and>
   (4 < length (splitlines text) \<and>
    splitlines text ! 4 = u ''password = '' @ [34] @ u ''abc123'' @ [34] \<longrightarrow>
      (file_path, u ''abc123'', 5, u ''password = '' @ [34] @ u ''abc123'' @ [34])
        \<in> set (findings_of file_path (check_file_for_passwords text file_path)))"
proof (intro conjI impI)
  assume a: "leftmost_occurrence line v \<and> list_all (\<lambda>c. \<not> linebreak c) line"
  then obtain kw where kw: "search_here line = Some (kw, v)"
    using search_leftmost by blast
  have "line \<noteq> []"
  proof
    assume "line = []"
    with a have "occurrence [] v" by (simp add: leftmost_occurrence_def)
    then show False by (simp add: occurrence_def)
  qed
  with a have "splitlines line = [line]"
    using splitlines_one_line [of line "[]"] by (simp add: splitlines_def)
  with kw show "check_file_for_passwords line file_path = [(v, 1, strip line)]"
    by (simp add: check_file_for_passwords_def matches_of_search del: matches_of.simps(2))
next
  assume nk: "\<not> contains_keyword file_content"
  have "search_here l = None" if "l \<in> set (splitlines file_content)" for l
  proof (cases "search_here l")
    case (Some r)
    then have "contains_keyword l" by (rule search_here_keyword)
    moreover from that obtain a b where "file_content = a @ l @ b"
      using splitlines_part by blast
    ultimately have "contains_keyword file_content" by (rule contains_keyword_part)
    with nk show ?thesis by simp
  qed simp
  then show "check_file_for_passwords file_content file_path = []"
    unfolding check_file_for_passwords_def by (rule matches_of_none)
next
  let ?L = "u ''password = '' @ [34] @ u ''abc123'' @ [34]"
  assume a: "4 < length (splitlines text) \<and> splitlines text ! 4 = ?L"
  then have "search_here (splitlines text ! 4) = Some (u ''password'', u ''abc123'')"
    by (simp only: password_line)
  with a have "(u ''abc123'', 0 + 4 + 1, strip (splitlines text ! 4)) \<in> set (matches_of 0 (splitlines text))"
    by (intro matches_of_complete) simp_all
  with a have "(u ''abc123'', 5, ?L) \<in> set (check_file_for_passwords text file_path)"
    by (simp only: check_file_for_passwords_def password_line_strip) simp
  then show "(file_path, u ''abc123'', 5, ?L)
        \<in> set (findings_of file_path (check_file_for_passwords text file_path))"
    unfolding findings_of_def by force
qed

text \<open>
  The three parts at concrete texts: a line with a keyword inside a longer name and a
  second occurrence after the first, a line with no keyword, and the fifth line of a file.
\<close>

theorem matcher_leftmost_value_witness:
  "leftmost_occurrence (u ''db_password = '' @ [39] @ u ''s3cr3t'' @ [39] @ u ''; key=other'') (u ''s3cr3t'') \<and>
   check_file_for_passwords (u ''db_password = '' @ [39] @ u ''s3cr3t'' @ [39] @ u ''; key=other'') (u ''config.py'')
     = [(u ''s3cr3t'', 1, u ''db_password = '' @ [39] @ u ''s3cr3t'' @ [39] @ u ''; key=other'')] \<and>
   \<not> contains_keyword (u ''print(1 + 2)'') \<and>
   check_file_for_passwords (u ''print(1 + 2)'') (u ''config.py'') = [] \<and>
   splitlines ([10, 10, 10, 10] @ u ''password = '' @ [34] @ u ''abc123'' @ [34] @ [10]) ! 4
     = u ''password = '' @ [34] @ u ''abc123'' @ [34] \<and>
   (u ''config.py'', u ''abc123'', 5, u ''password = '' @ [34] @ u ''abc123'' @ [34])
     \<in> set (findings_of (u ''config.py'')
         (check_file_for_passwords ([10, 10, 10, 10] @ u ''password = '' @ [34] @ u ''abc123'' @ [34] @ [10])
            (u ''config.py'')))"
proof -
  let ?L = "u ''db_password = '' @ [39] @ u ''s3cr3t'' @ [39] @ u ''; key=other''"
  let ?T = "u ''print(1 + 2)''"
  let ?X = "[10, 10, 10, 10] @ u ''password = '' @ [34] @ u ''abc123'' @ [34] @ [10]"
  have "search_here ?L = Some (u ''password'', u ''s3cr3t'')"
    by (simp add: shape_eval)
  then have h1: "leftmost_occurrence ?L (u ''s3cr3t'')"
    using search_leftmost by blast
  have h2: "list_all (\<lambda>c. \<not> linebreak c) ?L"
    by (simp add: linebreak_def)
  have "\<not> has_keyword ?T"
    by (simp add: shape_eval)
  then have h3: "\<not> contains_keyword ?T"
    using contains_has_keyword by blast
  have x: "splitlines ?X = [[], [], [], [], u ''password = '' @ [34] @ u ''abc123'' @ [34]]"
    by (simp add: splitlines_def linebreak_def)
  then have h4: "4 < length (splitlines ?X)"
    and h5: "splitlines ?X ! 4 = u ''password = '' @ [34] @ u ''abc123'' @ [34]"
    by simp_all
  have s: "strip ?L = ?L"
    by (simp add: strip_def isspace_def)
  note t = matcher_leftmost_value [of ?L "u ''s3cr3t''" "u ''config.py''" ?T ?X]
  from t h1 h2 have c1: "check_file_for_passwords ?L (u ''config.py'') = [(u ''s3cr3t'', 1, strip ?L)]"
    by blast
  from t h3 have c2: "check_file_for_passwords ?T (u ''config.py'') = []"
    by blast
  from t h4 h5 have c3: "(u ''config.py'', u ''abc123'', 5, u ''password = '' @ [34] @ u ''abc123'' @ [34])
     \<in> set (findings_of (u ''config.py'') (check_file_for_passwords ?X (u ''config.py'')))"
    by blast
  from h1 c1 [unfolded s] h3 c2 h5 c3 show ?thesis by blast
qed

text \<open>
  Claim C1 as first stated fails: the line \<^verbatim>\<open>key=a key=b\<close> ends in the keyword \<^verbatim>\<open>key\<close>,
  \<^verbatim>\<open>=\<close> and the value \<^verbatim>\<open>b\<close>, and the match returned for it is \<^verbatim>\<open>a\<close>.
\<close>

theorem later_occurrence_not_returned:
  "is_keyword (u ''key'') \<and> list_all value_char (u ''b'') \<and>
   u ''key=a key=b'' = u ''key=a '' @ u ''key'' @ [61] @ u ''b'' \<and>
   list_all (\<lambda>c. \<not> linebreak c) (u ''key=a key=b'') \<and>
   check_file_for_passwords (u ''key=a key=b'') (u ''config.py'') = [(u ''a'', 1, u ''key=a key=b'')] \<and>
   u ''a'' \<noteq> u ''b''"
  by (simp add: text_eval shape_eval is_keyword_def PASSWORD_REGEX_def word_def Opt_def Plus_def)

text \<open>
  Claim C6. The matches of a text are at most as many as its lines and their line numbers
  increase strictly, so that a line gives at most one; the one a line gives is the value of
  its leftmost occurrence.
\<close>

theorem one_finding_per_line:
  "length (check_file_for_passwords file_content file_path) \<le> length (splitlines file_content) \<and>
   sorted_wrt (<) (map (fst \<circ> snd) (check_file_for_passwords file_content file_path)) \<and>
   ((password, line_number, full_line) \<in> set (check_file_for_passwords file_content file_path) \<longrightarrow>
      leftmost_occurrence (splitlines file_content ! (line_number - 1)) password)"
proof (intro conjI impI)
  show "length (check_file_for_passwords file_content file_path) \<le> length (splitlines file_content)"
    unfolding check_file_for_passwords_def by (rule matches_of_length)
  show "sorted_wrt (<) (map (fst \<circ> snd) (check_file_for_passwords file_content file_path))"
    unfolding check_file_for_passwords_def by (rule matches_of_sorted)
  assume "(password, line_number, full_line) \<in> set (check_file_for_passwords file_content file_path)"
  then have "\<exists>kw. search_here (splitlines file_content ! (line_number - 0 - 1)) = Some (kw, password)"
    unfolding check_file_for_passwords_def using matches_of_elem by blast
  then show "leftmost_occurrence (splitlines file_content ! (line_number - 1)) password"
    by (simp add: search_leftmost)
qed

text \<open>A line with two occurrences: only the first is reported.\<close>

theorem one_finding_per_line_witness:
  "check_file_for_passwords (u ''token: x1; secret: y2'') (u ''a.env'')
     = [(u ''x1'', 1, u ''token: x1; secret: y2'')] \<and>
   occurrence (u ''secret: y2'') (u ''y2'') \<and>
   length (check_file_for_passwords (u ''token: x1; secret: y2'') (u ''a.env'')) \<le> 1 \<and>
   leftmost_occurrence (u ''token: x1; secret: y2'') (u ''x1'')"
proof -
  let ?L = "u ''token: x1; secret: y2''"
  have r: "check_file_for_passwords ?L (u ''a.env'') = [(u ''x1'', 1, ?L)]"
    by (simp add: text_eval shape_eval matches_of_search del: matches_of.simps(2))
  have l: "splitlines ?L = [?L]"
    by (simp add: splitlines_def linebreak_def)
  have "here keyword_list (u ''secret: y2'') = Some (u ''secret'', u ''y2'')"
    by (simp add: shape_eval)
  then have o: "occurrence (u ''secret: y2'') (u ''y2'')"
    using here_occurrence by blast
  have m: "(u ''x1'', 1, ?L) \<in> set (check_file_for_passwords ?L (u ''a.env''))"
    by (simp only: r) simp
  note t = one_finding_per_line [of ?L "u ''a.env''" "u ''x1''" 1 ?L]
  from t have "length (check_file_for_passwords ?L (u ''a.env'')) \<le> length (splitlines ?L)"
    by blast
  then have c1: "length (check_file_for_passwords ?L (u ''a.env'')) \<le> 1"
    by (simp only: l) simp
  from t m have "leftmost_occurrence (splitlines ?L ! (1 - 1)) (u ''x1'')"
    by blast
  then have c2: "leftmost_occurrence ?L (u ''x1'')"
    by (simp only: l) simp
  from r o c1 c2 show ?thesis by blast
qed

text \<open>
  Claim C9. The third component of a match is the line it was found on, a line the
  pattern matches, with the whitespace at both ends removed.
\<close>

theorem full_line_is_stripped:
  "(password, line_number, full_line) \<in> set (check_file_for_passwords file_content file_path) \<Longrightarrow>
     1 \<le> line_number \<and> line_number \<le> length (splitlines file_content) \<and>
     re_search PASSWORD_REGEX (splitlines file_content ! (line_number - 1)) \<noteq> None \<and>
     full_line = strip (splitlines file_content ! (line_number - 1))"
proof -
  assume "(password, line_number, full_line) \<in> set (check_file_for_passwords file_content file_path)"
  then have "(password, line_number, full_line) \<in> set (matches_of 0 (splitlines file_content))"
    by (simp only: check_file_for_passwords_def)
  from matches_of_elem [OF this] show ?thesis
    by (auto simp add: re_search_here)
qed

text \<open>A line with whitespace at both ends: the component differs from the raw line.\<close>

theorem full_line_is_stripped_witness:
  "(u ''v'', 1, u ''key=v'') \<in> set (check_file_for_passwords ([32, 9] @ u ''key=v  '') (u ''f'')) \<and>
   splitlines ([32, 9] @ u ''key=v  '') = [[32, 9] @ u ''key=v  ''] \<and>
   u ''key=v'' = strip ([32, 9] @ u ''key=v  '') \<and>
   u ''key=v'' \<noteq> [32, 9] @ u ''key=v  ''"
proof -
  let ?C = "[32, 9] @ u ''key=v  ''"
  have r: "check_file_for_passwords ?C (u ''f'') = [(u ''v'', 1, u ''key=v'')]"
    by (simp add: text_eval shape_eval matches_of_search del: matches_of.simps(2))
  then have m: "(u ''v'', 1, u ''key=v'') \<in> set (check_file_for_passwords ?C (u ''f''))"
    by simp
  have l: "splitlines ?C = [?C]"
    by (simp add: splitlines_def linebreak_def)
  from full_line_is_stripped [OF m] have "u ''key=v'' = strip (splitlines ?C ! (1 - 1))"
    by blast
  then have "u ''key=v'' = strip ?C"
    by (simp only: l) simp
  moreover have "u ''key=v'' \<noteq> ?C" by simp
  ultimately show ?thesis using m l by blast
qed

text \<open>
  Claim C10. The result is a function of the text alone: two calls on the same text with
  any two paths return the same list.
\<close>

theorem check_file_for_passwords_ignores_path:
  "check_file_for_passwords file_content file_path1 = check_file_for_passwords file_content file_path2"
  by (simp add: check_file_for_passwords_def)

end
